theory Spec2Isabelle
  imports Complex_Main "HOL-Library.Sublist"
begin

section \<open>Strings and numbers of the source\<close>

text \<open>
  A Python \<open>str\<close> is a sequence of Unicode code points, and \<open>len\<close> counts code points.
  The fraction dot of the source is U+00B7, one code point, so a string is modelled as
  the list of its code points; \<open>str\<close> turns an ASCII literal into such a list.
\<close>

type_synonym pystr = "nat list"

definition str :: "string \<Rightarrow> pystr" where
  "str s = map of_char s"

definition dot :: nat where
  "dot = 183"

text \<open>
  \<open>str.upper()\<close> and \<open>str.lower()\<close> map each code point on its own and concatenate
  the results (one code point can become several: U+00DF becomes \<open>SS\<close>).
  \<open>upper_cp\<close> follows Python on ASCII and Latin-1 and on the code points beyond
  Latin-1 whose upper-case form holds an ASCII letter of the numeral tables
  (U+0131, U+017F and the ligatures U+FB01 to U+FB06); \<open>lower_cp\<close> follows Python
  on ASCII and Latin-1. Every other code point is left as it is.
\<close>

definition upper_cp :: "nat \<Rightarrow> pystr" where
  "upper_cp c =
     (if 97 \<le> c \<and> c \<le> 122 then [c - 32]
      else if c = 181 then [924]
      else if c = 223 then [83, 83]
      else if 224 \<le> c \<and> c \<le> 254 \<and> c \<noteq> 247 then [c - 32]
      else if c = 255 then [376]
      else if c = 305 then [73]
      else if c = 383 then [83]
      else if c = 64257 then [70, 73]
      else if c = 64258 then [70, 76]
      else if c = 64259 then [70, 70, 73]
      else if c = 64260 then [70, 70, 76]
      else if c = 64261 \<or> c = 64262 then [83, 84]
      else [c])"

definition upper :: "pystr \<Rightarrow> pystr" where
  "upper s = concat (map upper_cp s)"

definition lower_cp :: "nat \<Rightarrow> pystr" where
  "lower_cp c =
     (if 65 \<le> c \<and> c \<le> 90 then [c + 32]
      else if 192 \<le> c \<and> c \<le> 222 \<and> c \<noteq> 215 then [c + 32]
      else [c])"

definition lower :: "pystr \<Rightarrow> pystr" where
  "lower s = concat (map lower_cp s)"

text \<open>\<open>sub in s\<close> on strings: \<open>sub\<close> occurs in \<open>s\<close> as a contiguous substring.\<close>

fun str_in :: "pystr \<Rightarrow> pystr \<Rightarrow> bool" where
  "str_in sub [] = (sub = [])"
| "str_in sub (c # s) = (prefix sub (c # s) \<or> str_in sub s)"

text \<open>
  \<open>s.startswith(sub, i)\<close> compares \<open>sub\<close> with \<open>s\<close> from index \<open>i\<close> on, and is
  false when \<open>i\<close> is beyond the end; \<open>s.endswith(sub)\<close>.
\<close>

definition startswith :: "pystr \<Rightarrow> pystr \<Rightarrow> nat \<Rightarrow> bool" where
  "startswith s sub i = (i \<le> length s \<and> prefix sub (drop i s))"

definition endswith :: "pystr \<Rightarrow> pystr \<Rightarrow> bool" where
  "endswith s sub = suffix sub s"

text \<open>
  Numbers. The source computes with Python's \<open>int\<close> and \<open>float\<close>. Every \<open>int\<close> and
  every finite \<open>float\<close> is a rational number, and a number is modelled as the rational
  it denotes: comparisons and \<open>int(x)\<close> are exact on it, while the rounding of
  \<open>float\<close> products, quotients and sums is not modelled (the arithmetic here is
  exact).
\<close>

definition py_int :: "rat \<Rightarrow> int" where
  "py_int x = (if 0 \<le> x then \<lfloor>x\<rfloor> else \<lceil>x\<rceil>)"

text \<open>
  \<open>min(xs, key=k)\<close>: the first element whose key is least; \<open>ValueError\<close> on an empty
  sequence.
\<close>

fun min_from :: "('a \<Rightarrow> rat) \<Rightarrow> 'a \<Rightarrow> 'a list \<Rightarrow> 'a" where
  "min_from key best [] = best"
| "min_from key best (x # xs) = min_from key (if key x < key best then x else best) xs"

definition py_min :: "('a \<Rightarrow> rat) \<Rightarrow> 'a list \<Rightarrow> 'a option" where
  "py_min key xs = (case xs of [] \<Rightarrow> None | x # rest \<Rightarrow> Some (min_from key x rest))"

section \<open>Errors\<close>

text \<open>
  Every \<open>raise RomanError(...)\<close> of the source is one constructor, carrying what the
  message is built from; \<open>ValueError\<close> is what \<open>min\<close> raises on an empty table and
  \<open>ZeroDivisionError\<close> what a division by zero raises.
\<close>

datatype roman_error =
    InvalidInput
  | InvalidSequence pystr
  | FractionPosition
  | InvalidNumeral pystr
  | OutOfRange
  | UnknownUnit pystr "pystr list"
  | InvalidUnits "pystr list"
  | InvalidValue
  | ValueError
  | ZeroDivisionError

section \<open>NumRom\<close>

definition valores_romanos :: "(pystr \<times> int) list" where
  "valores_romanos =
     [(str ''M'', 1000), (str ''CM'', 900), (str ''D'', 500), (str ''CD'', 400),
      (str ''C'', 100), (str ''XC'', 90), (str ''L'', 50), (str ''XL'', 40),
      (str ''X'', 10), (str ''IX'', 9), (str ''V'', 5), (str ''IV'', 4), (str ''I'', 1)]"

definition valores_fracciones :: "(pystr \<times> rat) list" where
  "valores_fracciones =
     [(str ''S'', 6 / 12), ([dot], 1 / 12), ([dot, dot], 2 / 12), ([dot, dot, dot], 3 / 12),
      ([dot, dot, dot, dot], 4 / 12), ([dot, dot, dot, dot, dot], 5 / 12)]"

definition invalid_sequences :: "pystr list" where
  "invalid_sequences =
     [str ''IIII'', str ''VV'', str ''XXXX'', str ''LL'', str ''CCCC'', str ''DD'', str ''MMMM'']"

subsection \<open>\<open>_valida_romano\<close>\<close>

text \<open>The first loop: the first forbidden sequence found in the string, in list order.\<close>

fun find_invalid :: "pystr list \<Rightarrow> pystr \<Rightarrow> pystr option" where
  "find_invalid [] roman = None"
| "find_invalid (seq # rest) roman =
     (if str_in seq roman then Some seq else find_invalid rest roman)"

text \<open>
  The second loop, over \<open>enumerate(roman)\<close>: some character \<open>S\<close> or dot stands at an
  index \<open>i < len(roman) - 6\<close> (the difference is an integer and may be negative).
\<close>

definition fraction_too_early :: "pystr \<Rightarrow> bool" where
  "fraction_too_early roman =
     list_ex (\<lambda>(i, char). char \<in> set (str ''S'' @ [dot]) \<and> int i < int (length roman) - 6)
       (enumerate 0 roman)"

definition valida_romano :: "pystr \<Rightarrow> roman_error option" where
  "valida_romano roman0 =
     (let roman = upper roman0 in
      case find_invalid invalid_sequences roman of
        Some seq \<Rightarrow> Some (InvalidSequence seq)
      | None \<Rightarrow>
          if list_ex (\<lambda>f. str_in (fst f) roman) valores_fracciones \<and> fraction_too_early roman
          then Some FractionPosition
          else None)"

subsection \<open>\<open>a_decimal\<close>\<close>

text \<open>
  The inner \<open>while\<close> of the scan, for one table entry. It ends because the symbol is
  not empty; every symbol of the table is non-empty, and the first conjunct of the
  guard records it.
\<close>

function scan_while :: "pystr \<Rightarrow> int \<Rightarrow> pystr \<Rightarrow> nat \<times> rat \<Rightarrow> nat \<times> rat" where
  "scan_while symbol v roman (i, result) =
     (if symbol \<noteq> [] \<and> i < length roman \<and> startswith roman symbol i
      then scan_while symbol v roman (i + length symbol, result + of_int v)
      else (i, result))"
  by pat_completeness auto
termination
  by (relation "measure (\<lambda>(symbol, v, roman, i, result). length roman - i)")
    (auto simp flip: length_greater_0_conv)

declare scan_while.simps [simp del]

fun scan_for :: "(pystr \<times> int) list \<Rightarrow> pystr \<Rightarrow> nat \<times> rat \<Rightarrow> nat \<times> rat" where
  "scan_for [] roman st = st"
| "scan_for ((symbol, v) # rest) roman st = scan_for rest roman (scan_while symbol v roman st)"

text \<open>The loop over the fraction table, left at the first glyph the string ends with.\<close>

fun fraction_for :: "(pystr \<times> rat) list \<Rightarrow> pystr \<Rightarrow> nat \<times> rat \<Rightarrow> nat \<times> rat" where
  "fraction_for [] roman st = st"
| "fraction_for ((symbol, v) # rest) roman st =
     (if endswith roman symbol then (fst st + length symbol, snd st + v)
      else fraction_for rest roman st)"

definition a_decimal :: "pystr \<Rightarrow> roman_error + rat" where
  "a_decimal roman0 =
     (if roman0 = [] then Inl InvalidInput
      else
        let roman = upper roman0 in
        case valida_romano roman of
          Some e \<Rightarrow> Inl e
        | None \<Rightarrow>
            let (i, result) = fraction_for valores_fracciones roman
                                (scan_for valores_romanos roman (0, 0))
            in if i \<noteq> length roman then Inl (InvalidNumeral roman) else Inr result)"

subsection \<open>\<open>a_romano\<close>\<close>

text \<open>
  The inner \<open>while\<close> of the generation, for one table entry. It ends because the value
  is positive; every value of the table is, and the first conjunct of the guard
  records it.
\<close>

function romano_while :: "pystr \<Rightarrow> int \<Rightarrow> int \<times> pystr \<Rightarrow> int \<times> pystr" where
  "romano_while symbol v (integer_part, result) =
     (if 0 < v \<and> integer_part \<ge> v
      then romano_while symbol v (integer_part - v, result @ symbol)
      else (integer_part, result))"
  by pat_completeness auto
termination
  by (relation "measure (\<lambda>(symbol, v, integer_part, result). nat integer_part)") auto

declare romano_while.simps [simp del]

fun romano_for :: "(pystr \<times> int) list \<Rightarrow> int \<times> pystr \<Rightarrow> int \<times> pystr" where
  "romano_for [] st = st"
| "romano_for ((symbol, v) # rest) st = romano_for rest (romano_while symbol v st)"

definition a_romano :: "rat \<Rightarrow> roman_error + pystr" where
  "a_romano decimal =
     (if decimal < 0 \<or> decimal > 3999.5 then Inl OutOfRange
      else
        let integer_part = py_int decimal;
            fractional_part = decimal - of_int integer_part;
            result1 = (if integer_part > 0
                       then snd (romano_for valores_romanos (integer_part, []))
                       else [])
        in if fractional_part > 0
           then (case py_min (\<lambda>x. \<bar>snd x - fractional_part\<bar>) valores_fracciones of
                   None \<Rightarrow> Inl ValueError
                 | Some closest_fraction \<Rightarrow>
                     let result2 = (if snd closest_fraction > 0.01
                                    then result1 @ fst closest_fraction else result1)
                     in Inr (if result2 \<noteq> [] then result2 else str ''Nihil''))
           else Inr (if result1 \<noteq> [] then result1 else str ''Nihil''))"

section \<open>MedRom\<close>

text \<open>
  The dictionary \<open>_medidas\<close>, in the order it is written (the order of
  \<open>list(_medidas.keys())\<close>); a key is looked up with \<open>map_of\<close>.
\<close>

definition medidas :: "(pystr \<times> rat) list" where
  "medidas =
     [(str ''pes'', 0.296), (str ''passus'', 1.48), (str ''stadium'', 185),
      (str ''mille_passus'', 1480), (str ''libra'', 0.3289), (str ''uncia'', 0.3289 / 12),
      (str ''amphora'', 26.2), (str ''sextarius'', 0.546)]"

definition unidades_disponibles :: "pystr list" where
  "unidades_disponibles = map fst medidas"

definition a_modernas :: "rat \<Rightarrow> pystr \<Rightarrow> roman_error + rat" where
  "a_modernas v unit0 =
     (let unit = lower unit0 in
      case map_of medidas unit of
        None \<Rightarrow> Inl (UnknownUnit unit unidades_disponibles)
      | Some factor \<Rightarrow> if v < 0 then Inl InvalidValue else Inr (v * factor))"

definition a_unidad_romana :: "rat \<Rightarrow> pystr \<Rightarrow> roman_error + rat" where
  "a_unidad_romana v unit0 =
     (let unit = lower unit0 in
      case map_of medidas unit of
        None \<Rightarrow> Inl (UnknownUnit unit unidades_disponibles)
      | Some factor \<Rightarrow>
          if v < 0 then Inl InvalidValue
          else if factor = 0 then Inl ZeroDivisionError
          else Inr (v / factor))"

definition conversion_unidades :: "rat \<Rightarrow> pystr \<Rightarrow> pystr \<Rightarrow> roman_error + rat" where
  "conversion_unidades v from_unit0 to_unit0 =
     (let from_unit = lower from_unit0; to_unit = lower to_unit0 in
      if map_of medidas from_unit = None \<or> map_of medidas to_unit = None
      then Inl (InvalidUnits unidades_disponibles)
      else case a_modernas v from_unit of
             Inl e \<Rightarrow> Inl e
           | Inr modern_value \<Rightarrow> a_unidad_romana modern_value to_unit)"

section \<open>Auxiliary notions for the proofs about NumRom\<close>

text \<open>
  These are not in the source; they describe what its loops produce. The generation
  loop writes, for each entry of the table in turn, some number of copies of the symbol:
  \<open>render T ks\<close> is that string for the counts \<open>ks\<close>, and \<open>total T ks\<close> the value the
  copies add up to. \<open>bounded T m ks\<close> holds when each count times its value is less than
  what was left before (\<open>m\<close> at the start, then the value of the entry before).
  \<open>separated T\<close> is the property of the table that lets the scan read such a string
  back: no symbol is empty, and a symbol can neither start nor continue the copies of
  the symbols after it.
\<close>

fun render :: "(pystr \<times> int) list \<Rightarrow> nat list \<Rightarrow> pystr" where
  "render ((s, v) # T) (k # ks) = concat (replicate k s) @ render T ks"
| "render T ks = []"

fun total :: "(pystr \<times> int) list \<Rightarrow> nat list \<Rightarrow> int" where
  "total ((s, v) # T) (k # ks) = int k * v + total T ks"
| "total T ks = 0"

fun bounded :: "(pystr \<times> int) list \<Rightarrow> int \<Rightarrow> nat list \<Rightarrow> bool" where
  "bounded [] m ks = (ks = [])"
| "bounded ((s, v) # T) m [] = False"
| "bounded ((s, v) # T) m (k # ks) = (int k * v < m \<and> bounded T v ks)"

fun separated :: "(pystr \<times> int) list \<Rightarrow> bool" where
  "separated [] = True"
| "separated ((s, v) # T) =
     (s \<noteq> [] \<and> [] \<notin> set (map fst T)
      \<and> (last s \<notin> set (concat (map fst T)) \<or> (length s = 1 \<and> hd s \<notin> set (map (hd \<circ> fst) T)))
      \<and> last s \<notin> set (map (hd \<circ> fst) T)
      \<and> separated T)"

section \<open>Properties of MedRom\<close>

lemma unidades_disponibles_eq:
  "unidades_disponibles =
     [str ''pes'', str ''passus'', str ''stadium'', str ''mille_passus'',
      str ''libra'', str ''uncia'', str ''amphora'', str ''sextarius'']"
  by (simp add: unidades_disponibles_def medidas_def)

lemma map_of_medidas_None: "map_of medidas u = None \<longleftrightarrow> u \<notin> set unidades_disponibles"
  by (simp add: unidades_disponibles_def map_of_eq_None_iff)

lemma medidas_positive: "(u, f) \<in> set medidas \<Longrightarrow> 0 < f"
  by (auto simp: medidas_def)

lemma map_of_medidas_positive: "map_of medidas u = Some f \<Longrightarrow> 0 < f"
  by (blast intro: medidas_positive dest: map_of_SomeD)

lemma lower_unidad: "u \<in> set unidades_disponibles \<Longrightarrow> lower u = u"
  by (auto simp: unidades_disponibles_eq str_def lower_def lower_cp_def)

lemma a_modernas_Inr:
  "map_of medidas (lower u) = Some f \<Longrightarrow> 0 \<le> v \<Longrightarrow> a_modernas v u = Inr (v * f)"
  by (simp add: a_modernas_def)

lemma a_unidad_romana_Inr:
  "map_of medidas (lower u) = Some f \<Longrightarrow> 0 \<le> v \<Longrightarrow> a_unidad_romana v u = Inr (v / f)"
  using map_of_medidas_positive [of "lower u" f] by (simp add: a_unidad_romana_def)

lemma a_modernas_isl:
  "isl (a_modernas v u) \<longleftrightarrow> lower u \<notin> set unidades_disponibles \<or> v < 0"
  by (auto simp: a_modernas_def Let_def map_of_medidas_None [symmetric] split: option.splits)

lemma a_unidad_romana_isl:
  "isl (a_unidad_romana v u) \<longleftrightarrow> lower u \<notin> set unidades_disponibles \<or> v < 0"
  by (auto simp: a_unidad_romana_def Let_def map_of_medidas_None [symmetric]
      split: option.splits dest: map_of_medidas_positive)

lemma lower_cp_idem: "concat (map lower_cp (lower_cp c)) = lower_cp c"
  by (simp add: lower_cp_def)

lemma lower_idem: "lower (lower s) = lower s"
  by (induction s) (simp_all add: lower_def lower_cp_idem)

lemma conversion_unidades_Inr:
  assumes "map_of medidas (lower a) = Some f" "map_of medidas (lower b) = Some g" "0 \<le> v"
  shows "conversion_unidades v a b = Inr (v * f / g)"
proof -
  have "0 < f" "0 < g" using assms map_of_medidas_positive by blast+
  moreover have "\<not> v * f < 0"
    using \<open>0 < f\<close> \<open>0 \<le> v\<close> by (simp add: not_less)
  ultimately show ?thesis
    using assms by (simp add: conversion_unidades_def a_modernas_def a_unidad_romana_def lower_idem)
qed

lemma conversion_unidades_isl:
  "isl (conversion_unidades v a b) \<longleftrightarrow>
     lower a \<notin> set unidades_disponibles \<or> lower b \<notin> set unidades_disponibles \<or> v < 0"
proof (cases "map_of medidas (lower a) = None \<or> map_of medidas (lower b) = None")
  case True
  then show ?thesis
    by (auto simp: conversion_unidades_def map_of_medidas_None)
next
  case False
  then obtain f g where fg: "map_of medidas (lower a) = Some f" "map_of medidas (lower b) = Some g"
    by auto
  show ?thesis
  proof (cases "v < 0")
    case True
    then show ?thesis using fg
      by (simp add: conversion_unidades_def a_modernas_def lower_idem)
  next
    case False
    then show ?thesis
      using fg conversion_unidades_Inr [OF fg, of v]
        map_of_medidas_None [of "lower a"] map_of_medidas_None [of "lower b"] by auto
  qed
qed

lemma conversion_unidades_round_trip:
  assumes "lower a \<in> set unidades_disponibles" "lower b \<in> set unidades_disponibles" "0 \<le> v"
  shows "\<exists>w. conversion_unidades v a b = Inr w \<and> conversion_unidades w b a = Inr v"
proof -
  obtain f g where fg: "map_of medidas (lower a) = Some f" "map_of medidas (lower b) = Some g"
    using assms map_of_medidas_None [of "lower a"] map_of_medidas_None [of "lower b"] by auto
  then have pos: "0 < f" "0 < g"
    using map_of_medidas_positive by blast+
  have 1: "conversion_unidades v a b = Inr (v * f / g)"
    using fg assms by (simp add: conversion_unidades_Inr)
  have "0 \<le> v * f / g"
    using pos assms by simp
  then have "conversion_unidades (v * f / g) b a = Inr (v * f / g * g / f)"
    using fg by (simp add: conversion_unidades_Inr)
  then have "conversion_unidades (v * f / g) b a = Inr v"
    using pos by simp
  with 1 show ?thesis
    by blast
qed

text \<open>
  Claim C5: for every unit name \<open>u\<close> of the unit table and every non-negative \<open>v\<close>,
  \<open>a_unidad_romana (a_modernas v u) u\<close> is exactly \<open>v\<close>, and both calls return; in
  particular \<open>a_modernas 1 pes = 0.296\<close> and \<open>a_unidad_romana 0.296 pes = 1\<close>.
\<close>

theorem a_unidad_romana_inverts_a_modernas:
  "(\<forall>u v. u \<in> set unidades_disponibles \<and> 0 \<le> v \<longrightarrow>
      (\<exists>m. a_modernas v u = Inr m \<and> a_unidad_romana m u = Inr v))
   \<and> a_modernas 1 (str ''pes'') = Inr 0.296
   \<and> a_unidad_romana 0.296 (str ''pes'') = Inr 1"
proof (intro conjI allI impI)
  fix u :: pystr and v :: rat
  assume h: "u \<in> set unidades_disponibles \<and> 0 \<le> v"
  then have "map_of medidas (lower u) \<noteq> None"
    by (simp add: lower_unidad map_of_medidas_None)
  then obtain f where f: "map_of medidas (lower u) = Some f"
    by blast
  then have pos: "0 < f"
    by (rule map_of_medidas_positive)
  have "a_modernas v u = Inr (v * f)"
    using f h by (simp add: a_modernas_Inr)
  moreover have "a_unidad_romana (v * f) u = Inr v"
    using f h pos a_unidad_romana_Inr [of u f "v * f"] by simp
  ultimately show "\<exists>m. a_modernas v u = Inr m \<and> a_unidad_romana m u = Inr v"
    by blast
next
  show "a_modernas 1 (str ''pes'') = Inr 0.296"
    by (simp add: a_modernas_def medidas_def lower_def lower_cp_def str_def)
next
  show "a_unidad_romana 0.296 (str ''pes'') = Inr 1"
    by (simp add: a_unidad_romana_def medidas_def lower_def lower_cp_def str_def)
qed

theorem a_unidad_romana_inverts_a_modernas_witness:
  "str ''libra'' \<in> set unidades_disponibles \<and> (0::rat) \<le> 2
   \<and> a_modernas 2 (str ''libra'') = Inr 0.6578
   \<and> a_unidad_romana 0.6578 (str ''libra'') = Inr 2"
proof -
  have m: "str ''libra'' \<in> set unidades_disponibles"
    by (simp add: unidades_disponibles_eq)
  have a: "a_modernas 2 (str ''libra'') = Inr 0.6578"
    by (simp add: a_modernas_def medidas_def lower_def lower_cp_def str_def)
  have "str ''libra'' \<in> set unidades_disponibles \<and> (0::rat) \<le> 2 \<longrightarrow>
          (\<exists>r. a_modernas 2 (str ''libra'') = Inr r \<and> a_unidad_romana r (str ''libra'') = Inr 2)"
    using a_unidad_romana_inverts_a_modernas by blast
  with m obtain r where r: "a_modernas 2 (str ''libra'') = Inr r" "a_unidad_romana r (str ''libra'') = Inr 2"
    by auto
  from r(1) a have "r = 0.6578"
    by simp
  with r(2) a m show ?thesis
    by simp
qed

text \<open>
  Claim C8: each of \<open>a_modernas\<close>, \<open>a_unidad_romana\<close> and \<open>conversion_unidades\<close> raises
  an error exactly when a unit name, lowercased, is not in the unit table or the value is
  negative; for an unknown unit the error carries the list of the valid unit names.
\<close>

theorem measurement_errors:
  "(isl (a_modernas v u) \<longleftrightarrow> lower u \<notin> set unidades_disponibles \<or> v < 0)
   \<and> (isl (a_unidad_romana v u) \<longleftrightarrow> lower u \<notin> set unidades_disponibles \<or> v < 0)
   \<and> (isl (conversion_unidades v a b) \<longleftrightarrow>
        lower a \<notin> set unidades_disponibles \<or> lower b \<notin> set unidades_disponibles \<or> v < 0)
   \<and> (lower u \<notin> set unidades_disponibles \<longrightarrow>
        a_modernas v u = Inl (UnknownUnit (lower u) unidades_disponibles)
        \<and> a_unidad_romana v u = Inl (UnknownUnit (lower u) unidades_disponibles))
   \<and> (lower a \<notin> set unidades_disponibles \<or> lower b \<notin> set unidades_disponibles \<longrightarrow>
        conversion_unidades v a b = Inl (InvalidUnits unidades_disponibles))
   \<and> unidades_disponibles =
        [str ''pes'', str ''passus'', str ''stadium'', str ''mille_passus'',
         str ''libra'', str ''uncia'', str ''amphora'', str ''sextarius'']"
proof (intro conjI impI)
  show "isl (a_modernas v u) \<longleftrightarrow> lower u \<notin> set unidades_disponibles \<or> v < 0"
    by (rule a_modernas_isl)
  show "isl (a_unidad_romana v u) \<longleftrightarrow> lower u \<notin> set unidades_disponibles \<or> v < 0"
    by (rule a_unidad_romana_isl)
  show "isl (conversion_unidades v a b) \<longleftrightarrow>
        lower a \<notin> set unidades_disponibles \<or> lower b \<notin> set unidades_disponibles \<or> v < 0"
    by (rule conversion_unidades_isl)
  show "unidades_disponibles =
        [str ''pes'', str ''passus'', str ''stadium'', str ''mille_passus'',
         str ''libra'', str ''uncia'', str ''amphora'', str ''sextarius'']"
    by (rule unidades_disponibles_eq)
next
  assume "lower u \<notin> set unidades_disponibles"
  then have n: "map_of medidas (lower u) = None"
    by (simp add: map_of_medidas_None)
  show "a_modernas v u = Inl (UnknownUnit (lower u) unidades_disponibles)"
    using n by (simp add: a_modernas_def)
  show "a_unidad_romana v u = Inl (UnknownUnit (lower u) unidades_disponibles)"
    using n by (simp add: a_unidad_romana_def)
next
  assume "lower a \<notin> set unidades_disponibles \<or> lower b \<notin> set unidades_disponibles"
  then show "conversion_unidades v a b = Inl (InvalidUnits unidades_disponibles)"
    by (auto simp: conversion_unidades_def map_of_medidas_None)
qed

theorem measurement_errors_witness:
  "lower (str ''Codo'') \<notin> set unidades_disponibles
   \<and> a_modernas 1 (str ''Codo'') = Inl (UnknownUnit (str ''codo'') unidades_disponibles)
   \<and> conversion_unidades 1 (str ''pes'') (str ''Codo'') = Inl (InvalidUnits unidades_disponibles)
   \<and> isl (a_unidad_romana (- 1) (str ''PES''))
   \<and> \<not> isl (conversion_unidades 1 (str ''pes'') (str ''Libra''))"
proof -
  have l: "lower (str ''Codo'') = str ''codo''" "lower (str ''PES'') = str ''pes''"
    "lower (str ''pes'') = str ''pes''" "lower (str ''Libra'') = str ''libra''"
    by (simp_all add: lower_def lower_cp_def str_def)
  have n: "str ''codo'' \<notin> set unidades_disponibles" "str ''pes'' \<in> set unidades_disponibles"
    "str ''libra'' \<in> set unidades_disponibles"
    by (simp_all add: unidades_disponibles_eq str_def)
  show ?thesis
    using measurement_errors [of 1 "str ''Codo''" "str ''pes''" "str ''Codo''"]
      measurement_errors [of "- 1" "str ''PES''" "str ''pes''" "str ''Libra''"]
      measurement_errors [of 1 "str ''PES''" "str ''pes''" "str ''Libra''"]
    by (simp add: l n)
qed

text \<open>
  Claim C10: every factor of the unit table is strictly positive, so neither
  \<open>a_unidad_romana\<close> nor \<open>conversion_unidades\<close> ever divides by zero, and for a known
  unit and a non-negative value each of the three operations returns a non-negative
  result.
\<close>

theorem medidas_positive_results:
  "(\<forall>(u, f) \<in> set medidas. 0 < f)
   \<and> (\<forall>v u. a_unidad_romana v u \<noteq> Inl ZeroDivisionError)
   \<and> (\<forall>v a b. conversion_unidades v a b \<noteq> Inl ZeroDivisionError)
   \<and> (\<forall>v u. lower u \<in> set unidades_disponibles \<and> 0 \<le> v \<longrightarrow>
        (\<exists>r. a_modernas v u = Inr r \<and> 0 \<le> r) \<and> (\<exists>r. a_unidad_romana v u = Inr r \<and> 0 \<le> r))
   \<and> (\<forall>v a b. lower a \<in> set unidades_disponibles \<and> lower b \<in> set unidades_disponibles
          \<and> 0 \<le> v \<longrightarrow> (\<exists>r. conversion_unidades v a b = Inr r \<and> 0 \<le> r))"
proof (intro conjI allI impI)
  show "\<forall>(u, f) \<in> set medidas. 0 < f"
    using medidas_positive by blast
next
  fix v u
  show "a_unidad_romana v u \<noteq> Inl ZeroDivisionError"
    by (auto simp: a_unidad_romana_def Let_def split: option.splits dest: map_of_medidas_positive)
next
  fix v a b
  have "a_modernas v (lower a) \<noteq> Inl ZeroDivisionError"
    by (auto simp: a_modernas_def Let_def split: option.splits)
  moreover have "\<And>m. a_unidad_romana m (lower b) \<noteq> Inl ZeroDivisionError"
    by (auto simp: a_unidad_romana_def Let_def split: option.splits dest: map_of_medidas_positive)
  ultimately show "conversion_unidades v a b \<noteq> Inl ZeroDivisionError"
    by (auto simp: conversion_unidades_def Let_def split: sum.splits)
next
  fix v :: rat and u :: pystr
  assume h: "lower u \<in> set unidades_disponibles \<and> 0 \<le> v"
  then obtain f where f: "map_of medidas (lower u) = Some f"
    using map_of_medidas_None [of "lower u"] by auto
  then have pos: "0 < f"
    by (rule map_of_medidas_positive)
  show "\<exists>r. a_modernas v u = Inr r \<and> 0 \<le> r"
    using f h pos by (simp add: a_modernas_Inr)
  show "\<exists>r. a_unidad_romana v u = Inr r \<and> 0 \<le> r"
    using f h pos by (simp add: a_unidad_romana_Inr)
next
  fix v :: rat and a b :: pystr
  assume h: "lower a \<in> set unidades_disponibles \<and> lower b \<in> set unidades_disponibles \<and> 0 \<le> v"
  then obtain f g where fg: "map_of medidas (lower a) = Some f" "map_of medidas (lower b) = Some g"
    using map_of_medidas_None [of "lower a"] map_of_medidas_None [of "lower b"] by auto
  then have pos: "0 < f" "0 < g"
    using map_of_medidas_positive by blast+
  show "\<exists>r. conversion_unidades v a b = Inr r \<and> 0 \<le> r"
    using fg h pos by (simp add: conversion_unidades_Inr)
qed

theorem medidas_positive_results_witness:
  "lower (str ''Uncia'') \<in> set unidades_disponibles \<and> lower (str ''pes'') \<in> set unidades_disponibles
   \<and> (\<exists>r. a_unidad_romana 3 (str ''Uncia'') = Inr r \<and> 0 \<le> r)
   \<and> (\<exists>r. conversion_unidades 3 (str ''Uncia'') (str ''pes'') = Inr r \<and> 0 \<le> r)
   \<and> (str ''uncia'', 0.3289 / 12) \<in> set medidas \<and> (0::rat) < 0.3289 / 12"
proof -
  have l: "lower (str ''Uncia'') = str ''uncia''" "lower (str ''pes'') = str ''pes''"
    by (simp_all add: lower_def lower_cp_def str_def)
  have n: "str ''uncia'' \<in> set unidades_disponibles" "str ''pes'' \<in> set unidades_disponibles"
    by (simp_all add: unidades_disponibles_eq str_def)
  have m: "(str ''uncia'', 0.3289 / 12) \<in> set medidas"
    by (simp add: medidas_def)
  have "(\<exists>r. a_unidad_romana 3 (str ''Uncia'') = Inr r \<and> 0 \<le> r)"
    using medidas_positive_results l n by simp
  moreover have "(\<exists>r. conversion_unidades 3 (str ''Uncia'') (str ''pes'') = Inr r \<and> 0 \<le> r)"
    using medidas_positive_results l n by simp
  ultimately show ?thesis
    using l n m by simp
qed

section \<open>Properties of NumRom\<close>

lemma floor_numeral_quotient:
  "\<lfloor>numeral a / numeral b :: rat\<rfloor> = numeral a div numeral b"
  using floor_divide_of_int_eq [of "numeral a" "numeral b", where ?'a = rat] by simp

lemmas numrom_eval =
  a_decimal_def a_romano_def valida_romano_def fraction_too_early_def
  valores_romanos_def valores_fracciones_def invalid_sequences_def
  scan_while.simps romano_while.simps py_int_def py_min_def floor_numeral_quotient
  upper_def upper_cp_def startswith_def endswith_def suffix_to_prefix
  str_def dot_def Let_def

text \<open>
  Claim C7: \<open>a_romano\<close> returns \<open>Nihil\<close> on 0, \<open>IV\<close> on 4, \<open>IX\<close> on 9, \<open>XL\<close> on 40
  and \<open>MCMXCIV\<close> on 1994.
\<close>

theorem a_romano_spec_points:
  "a_romano 0 = Inr (str ''Nihil'')
   \<and> a_romano 4 = Inr (str ''IV'')
   \<and> a_romano 9 = Inr (str ''IX'')
   \<and> a_romano 40 = Inr (str ''XL'')
   \<and> a_romano 1994 = Inr (str ''MCMXCIV'')"
proof (intro conjI)
  show "a_romano 0 = Inr (str ''Nihil'')"
    by (simp add: numrom_eval)
  show "a_romano 4 = Inr (str ''IV'')"
    by (simp add: numrom_eval)
  show "a_romano 9 = Inr (str ''IX'')"
    by (simp add: numrom_eval)
  show "a_romano 40 = Inr (str ''XL'')"
    by (simp add: numrom_eval)
  show "a_romano 1994 = Inr (str ''MCMXCIV'')"
    by (simp add: numrom_eval)
qed

lemma a_romano_out_of_range: "x < 0 \<or> 3999.5 < x \<Longrightarrow> a_romano x = Inl OutOfRange"
  by (subst a_romano_def) (rule if_P)

text \<open>
  Claim C6: \<open>a_romano 3999.5\<close> returns a numeral, \<open>a_romano 3999.51\<close> raises the
  out-of-range error, and so does every number greater than 3999.5 or less than 0.
\<close>

theorem a_romano_range_boundary:
  "a_romano 3999.5 = Inr (str ''MMMCMXCIXS'')
   \<and> a_romano 3999.51 = Inl OutOfRange
   \<and> (\<forall>x. 3999.5 < x \<or> x < 0 \<longrightarrow> a_romano x = Inl OutOfRange)"
proof (intro conjI allI impI)
  show "a_romano 3999.5 = Inr (str ''MMMCMXCIXS'')"
    by (simp add: numrom_eval)
  show "a_romano 3999.51 = Inl OutOfRange"
    by (rule a_romano_out_of_range) simp
  show "a_romano x = Inl OutOfRange" if "3999.5 < x \<or> x < 0" for x
    using that by (intro a_romano_out_of_range) blast
qed

theorem a_romano_range_boundary_witness:
  "(3999.5::rat) < 4000 \<and> a_romano 4000 = Inl OutOfRange
   \<and> (- 1 / 2 :: rat) < 0 \<and> a_romano (- 1 / 2) = Inl OutOfRange"
proof -
  have 1: "(3999.5::rat) < 4000" and 2: "(- 1 / 2 :: rat) < 0"
    by simp_all
  have "(3999.5::rat) < 4000 \<or> (4000::rat) < 0 \<longrightarrow> a_romano 4000 = Inl OutOfRange"
    and "(3999.5::rat) < - 1 / 2 \<or> (- 1 / 2 :: rat) < 0 \<longrightarrow> a_romano (- 1 / 2) = Inl OutOfRange"
    using a_romano_range_boundary by blast+
  with 1 2 show ?thesis
    by blast
qed

text \<open>
  Claim C2, evaluated on the code: \<open>a_decimal\<close> returns 12 on \<open>XII\<close>, and the value
  plus the twelfths on \<open>XII\<close> followed by \<open>S\<close> or by one dot. On \<open>XII\<close> followed by
  three dots, the glyph of 3/12 that \<open>a_romano 12.25\<close> writes, it raises the
  invalid-numeral error: the fraction loop stops at the first glyph the string ends
  with, which is the single dot, and two dots are left unconsumed.
\<close>

theorem a_decimal_three_dots:
  "a_decimal (str ''XII'') = Inr 12
   \<and> a_decimal (str ''XIIS'') = Inr (12 + 6 / 12)
   \<and> a_decimal (str ''XII'' @ [dot]) = Inr (12 + 1 / 12)
   \<and> a_romano 12.25 = Inr (str ''XII'' @ [dot, dot, dot])
   \<and> a_decimal (str ''XII'' @ [dot, dot, dot]) = Inl (InvalidNumeral (str ''XII'' @ [dot, dot, dot]))"
proof (intro conjI)
  show "a_decimal (str ''XII'') = Inr 12"
    by (simp add: numrom_eval)
  show "a_decimal (str ''XIIS'') = Inr (12 + 6 / 12)"
    by (simp add: numrom_eval)
  show "a_decimal (str ''XII'' @ [dot]) = Inr (12 + 1 / 12)"
    by (simp add: numrom_eval)
  show "a_romano 12.25 = Inr (str ''XII'' @ [dot, dot, dot])"
    by (simp add: numrom_eval)
  show "a_decimal (str ''XII'' @ [dot, dot, dot]) = Inl (InvalidNumeral (str ''XII'' @ [dot, dot, dot]))"
    by (simp add: numrom_eval)
qed

subsection \<open>Upper case and substrings\<close>

lemma str_in_sublist: "str_in sub s \<longleftrightarrow> sublist sub s"
proof (induction s)
  case Nil
  then show ?case by (cases sub) simp_all
next
  case (Cons c s)
  then show ?case by (cases sub) (simp_all add: sublist_Cons_right)
qed

lemma upper_append: "upper (a @ b) = upper a @ upper b"
  by (simp add: upper_def)

lemma upper_cp_low: "c < 97 \<Longrightarrow> upper_cp c = [c]"
  by (simp add: upper_cp_def)
lemma upper_cp_mid: "122 < c \<Longrightarrow> c < 223 \<Longrightarrow> c \<noteq> 181 \<Longrightarrow> upper_cp c = [c]"
  by (simp add: upper_cp_def)
lemma upper_cp_consts: "upper_cp 924 = [924]" "upper_cp 376 = [376]"
  by (simp_all add: upper_cp_def)
lemma upper_cp_az: "97 \<le> c \<Longrightarrow> c \<le> 122 \<Longrightarrow> upper_cp c = [c - 32]"
  by (simp add: upper_cp_def)
lemma upper_cp_latin: "224 \<le> c \<Longrightarrow> c \<le> 254 \<Longrightarrow> c \<noteq> 247 \<Longrightarrow> upper_cp c = [c - 32]"
  by (simp add: upper_cp_def)
lemma upper_cp_other:
  "\<not> (97 \<le> c \<and> c \<le> 122) \<Longrightarrow> c \<noteq> 181 \<Longrightarrow> c \<noteq> 223 \<Longrightarrow> \<not> (224 \<le> c \<and> c \<le> 254 \<and> c \<noteq> 247)
   \<Longrightarrow> c \<noteq> 255 \<Longrightarrow> c \<noteq> 305 \<Longrightarrow> c \<noteq> 383 \<Longrightarrow> c \<noteq> 64257 \<Longrightarrow> c \<noteq> 64258 \<Longrightarrow> c \<noteq> 64259
   \<Longrightarrow> c \<noteq> 64260 \<Longrightarrow> \<not> (c = 64261 \<or> c = 64262) \<Longrightarrow> upper_cp c = [c]"
  by (simp only: upper_cp_def if_False)

lemma upper_cp_special:
  "c \<in> {181, 223, 255, 305, 383, 64257, 64258, 64259, 64260, 64261, 64262}
   \<Longrightarrow> concat (map upper_cp (upper_cp c)) = upper_cp c"
  by (elim insertE emptyE) (simp_all add: upper_cp_def)

lemma upper_cp_idem: "concat (map upper_cp (upper_cp c)) = upper_cp c"
proof (cases "97 \<le> c \<and> c \<le> 122")
  case True
  then have "upper_cp c = [c - 32]"
    by (simp add: upper_cp_az)
  moreover have "c - 32 < 97"
    using True by arith
  ultimately show ?thesis
    by (simp add: upper_cp_low)
next
  case az: False
  show ?thesis
  proof (cases "224 \<le> c \<and> c \<le> 254 \<and> c \<noteq> 247")
    case True
    then have "upper_cp c = [c - 32]"
      by (simp add: upper_cp_latin)
    moreover have "122 < c - 32" "c - 32 < 223" "c - 32 \<noteq> 181"
      using True by arith+
    ultimately show ?thesis
      by (simp add: upper_cp_mid)
  next
    case latin: False
    show ?thesis
    proof (cases "c \<in> {181, 223, 255, 305, 383, 64257, 64258, 64259, 64260, 64261, 64262}")
      case True
      then show ?thesis
        by (rule upper_cp_special)
    next
      case False
      then have "upper_cp c = [c]"
        using az latin by (intro upper_cp_other) simp_all
      then show ?thesis
        by simp
    qed
  qed
qed

lemma upper_idem: "upper (upper s) = upper s"
  by (induction s) (simp_all add: upper_def upper_cp_idem)

lemma upper_cp_not_Nil: "upper_cp c \<noteq> []"
proof (cases "97 \<le> c \<and> c \<le> 122")
  case True
  then show ?thesis
    by (simp add: upper_cp_az)
next
  case az: False
  show ?thesis
  proof (cases "224 \<le> c \<and> c \<le> 254 \<and> c \<noteq> 247")
    case True
    then show ?thesis
      by (simp add: upper_cp_latin)
  next
    case latin: False
    show ?thesis
    proof (cases "c \<in> {181, 223, 255, 305, 383, 64257, 64258, 64259, 64260, 64261, 64262}")
      case True
      then show ?thesis
        by (elim insertE emptyE) (simp_all add: upper_cp_def)
    next
      case False
      then have "upper_cp c = [c]"
        using az latin by (intro upper_cp_other) simp_all
      then show ?thesis
        by simp
    qed
  qed
qed

lemma upper_Nil_iff: "upper s = [] \<longleftrightarrow> s = []"
  by (cases s) (simp_all add: upper_def upper_cp_not_Nil)

lemma find_invalid_first:
  "seq \<in> set seqs \<Longrightarrow> str_in seq roman \<Longrightarrow>
     \<exists>q. find_invalid seqs roman = Some q \<and> q \<in> set seqs \<and> str_in q roman"
  by (induction seqs) auto

text \<open>
  Claim C3: for each of the seven forbidden sequences, \<open>a_decimal\<close> raises the
  invalid-sequence error on every string whose upper-case form contains it; the error
  names a forbidden sequence that occurs in the upper-case form.
\<close>

theorem a_decimal_invalid_sequence:
  assumes "seq \<in> set invalid_sequences" and "str_in seq (upper roman)"
  shows "\<exists>q. q \<in> set invalid_sequences \<and> str_in q (upper roman)
             \<and> a_decimal roman = Inl (InvalidSequence q)"
proof -
  have "seq \<noteq> []"
    using assms(1) by (auto simp: invalid_sequences_def str_def)
  then have "upper roman \<noteq> []"
    using assms(2) by (cases "upper roman") auto
  then have ne: "roman \<noteq> []"
    by (simp add: upper_Nil_iff)
  obtain q where q: "find_invalid invalid_sequences (upper roman) = Some q"
      "q \<in> set invalid_sequences" "str_in q (upper roman)"
    using find_invalid_first [OF assms] by blast
  have "valida_romano (upper roman) = Some (InvalidSequence q)"
    using q(1) by (simp add: valida_romano_def upper_idem)
  then have "a_decimal roman = Inl (InvalidSequence q)"
    using ne by (simp add: a_decimal_def)
  with q show ?thesis
    by blast
qed

theorem a_decimal_invalid_sequence_witness:
  "str ''VV'' \<in> set invalid_sequences \<and> str_in (str ''VV'') (upper (str ''xvvi''))
   \<and> (\<exists>q. q \<in> set invalid_sequences \<and> str_in q (upper (str ''xvvi''))
            \<and> a_decimal (str ''xvvi'') = Inl (InvalidSequence q))"
proof -
  have 1: "str ''VV'' \<in> set invalid_sequences"
    by (simp add: invalid_sequences_def)
  have 2: "str_in (str ''VV'') (upper (str ''xvvi''))"
    by (simp add: upper_def upper_cp_def str_def)
  from a_decimal_invalid_sequence [OF 1 2] 1 2 show ?thesis
    by blast
qed

subsection \<open>What the generation loop writes\<close>

lemma romano_while_counts:
  "0 < v \<Longrightarrow> 0 \<le> n \<Longrightarrow>
     \<exists>k. romano_while s v (n, res) = (n - int k * v, res @ concat (replicate k s))
         \<and> 0 \<le> n - int k * v \<and> n - int k * v < v"
proof (induction "nat n" arbitrary: n res rule: less_induct)
  case less
  show ?case
  proof (cases "v \<le> n")
    case True
    then have "nat (n - v) < nat n" "0 \<le> n - v"
      using less.prems by simp_all
    then obtain k where k:
      "romano_while s v (n - v, res @ s)
         = (n - v - int k * v, (res @ s) @ concat (replicate k s))"
      "0 \<le> n - v - int k * v" "n - v - int k * v < v"
      using less.hyps [of "n - v" "res @ s"] less.prems(1) by blast
    have "romano_while s v (n, res) = romano_while s v (n - v, res @ s)"
      using True less.prems(1) by (simp add: romano_while.simps [of s v n res])
    with k have "romano_while s v (n, res)
        = (n - int (Suc k) * v, res @ concat (replicate (Suc k) s))
      \<and> 0 \<le> n - int (Suc k) * v \<and> n - int (Suc k) * v < v"
      by (simp add: algebra_simps)
    then show ?thesis
      by blast
  next
    case False
    then have "romano_while s v (n, res) = (n, res)"
      by (simp add: romano_while.simps [of s v n res])
    with False less.prems(2) have "romano_while s v (n, res)
        = (n - int 0 * v, res @ concat (replicate 0 s))
      \<and> 0 \<le> n - int 0 * v \<and> n - int 0 * v < v"
      by simp
    then show ?thesis
      by blast
  qed
qed

lemma romano_for_counts:
  "\<forall>(s, v) \<in> set T. 0 < v \<Longrightarrow> 0 \<le> n \<Longrightarrow> n < m \<Longrightarrow>
     \<exists>ks. romano_for T (n, res) = (n - total T ks, res @ render T ks)
          \<and> bounded T m ks \<and> 0 \<le> n - total T ks
          \<and> (T \<noteq> [] \<longrightarrow> n - total T ks < snd (last T))"
proof (induction T arbitrary: n m res)
  case Nil
  then show ?case
    by (intro exI [of _ "[]"]) simp
next
  case (Cons sv T)
  obtain s v where sv: "sv = (s, v)"
    by (cases sv)
  with Cons.prems have v: "0 < v" and T: "\<forall>(s, v) \<in> set T. 0 < v"
    by auto
  obtain k where k:
    "romano_while s v (n, res) = (n - int k * v, res @ concat (replicate k s))"
    "0 \<le> n - int k * v" "n - int k * v < v"
    using romano_while_counts [OF v Cons.prems(2)] by blast
  obtain ks where ks:
    "romano_for T (n - int k * v, res @ concat (replicate k s))
       = (n - int k * v - total T ks, (res @ concat (replicate k s)) @ render T ks)"
    "bounded T v ks" "0 \<le> n - int k * v - total T ks"
    "T \<noteq> [] \<longrightarrow> n - int k * v - total T ks < snd (last T)"
    using Cons.IH [OF T k(2) k(3)] by blast
  have "int k * v < m"
    using k(2) Cons.prems(3) by simp
  moreover have "T = [] \<Longrightarrow> total T ks = 0"
    by simp
  ultimately have "romano_for (sv # T) (n, res)
        = (n - total (sv # T) (k # ks), res @ render (sv # T) (k # ks))
      \<and> bounded (sv # T) m (k # ks) \<and> 0 \<le> n - total (sv # T) (k # ks)
      \<and> (sv # T \<noteq> [] \<longrightarrow> n - total (sv # T) (k # ks) < snd (last (sv # T)))"
    using k ks sv by (auto simp: algebra_simps)
  then show ?case
    by blast
qed

subsection \<open>The scan reads it back\<close>

lemma scan_while_stop:
  "\<not> (i < length roman \<and> startswith roman symbol i) \<Longrightarrow>
     scan_while symbol v roman (i, result) = (i, result)"
  by (subst scan_while.simps) auto

lemma scan_while_blocks:
  "symbol \<noteq> [] \<Longrightarrow> \<not> prefix symbol rest \<Longrightarrow>
     scan_while symbol v (pre @ concat (replicate k symbol) @ rest) (length pre, acc)
       = (length pre + k * length symbol, acc + of_int (int k * v))"
proof (induction k arbitrary: pre acc)
  case 0
  then show ?case
    by (simp add: scan_while_stop startswith_def)
next
  case (Suc k)
  let ?roman = "pre @ concat (replicate (Suc k) symbol) @ rest"
  have roman: "?roman = (pre @ symbol) @ concat (replicate k symbol) @ rest"
    by simp
  have "length pre < length ?roman" "startswith ?roman symbol (length pre)"
    using Suc.prems(1) by (simp_all add: startswith_def)
  then have "scan_while symbol v ?roman (length pre, acc)
      = scan_while symbol v ?roman (length pre + length symbol, acc + of_int v)"
    using Suc.prems(1) by (subst scan_while.simps) (simp only: simp_thms if_True)
  also have "\<dots> = scan_while symbol v ((pre @ symbol) @ concat (replicate k symbol) @ rest)
      (length (pre @ symbol), acc + of_int v)"
    by simp
  also have "\<dots> = (length (pre @ symbol) + k * length symbol, acc + of_int v + of_int (int k * v))"
    using Suc.IH [OF Suc.prems, of "pre @ symbol" "acc + of_int v"] .
  finally show ?case
    by (simp add: algebra_simps)
qed

lemma scan_for_at_end:
  "length roman \<le> i \<Longrightarrow> scan_for T roman (i, acc) = (i, acc)"
  by (induction T) (auto simp: scan_while_stop)

lemma set_render: "set (render T ks) \<subseteq> set (concat (map fst T))"
  by (induction T ks rule: render.induct) auto

lemma hd_render:
  "[] \<notin> set (map fst T) \<Longrightarrow> render T ks \<noteq> [] \<Longrightarrow> hd (render T ks) \<in> set (map (hd \<circ> fst) T)"
proof (induction T ks rule: render.induct)
  case (1 s v T k ks)
  show ?case
  proof (cases "concat (replicate k s) = []")
    case True
    then have "render ((s, v) # T) (k # ks) = render T ks"
      by simp
    moreover have "[] \<notin> set (map fst T)"
      using 1(2) by simp
    ultimately have "hd (render ((s, v) # T) (k # ks)) \<in> set (map (hd \<circ> fst) T)"
      using 1 by simp
    then show ?thesis
      by simp
  next
    case False
    then have "0 < k" "s \<noteq> []"
      by (cases k; auto)+
    then have "hd (concat (replicate k s)) = hd s"
      by (cases k) auto
    with False show ?thesis
      by simp
  qed
qed simp_all

lemma separated_not_prefix:
  assumes "separated ((s, v) # T)"
  shows "\<not> prefix s (render T ks)"
proof
  assume p: "prefix s (render T ks)"
  from assms have s: "s \<noteq> []" and T: "[] \<notin> set (map fst T)"
    and d: "last s \<notin> set (concat (map fst T)) \<or> (length s = 1 \<and> hd s \<notin> set (map (hd \<circ> fst) T))"
    by simp_all
  from p s have ne: "render T ks \<noteq> []"
    by auto
  from d show False
  proof
    assume "last s \<notin> set (concat (map fst T))"
    moreover have "last s \<in> set (render T ks)"
      using p s by (meson last_in_set set_mono_prefix subsetD)
    ultimately show False
      using set_render [of T ks] by blast
  next
    assume "length s = 1 \<and> hd s \<notin> set (map (hd \<circ> fst) T)"
    moreover have "hd (render T ks) = hd s"
      using p s by (auto simp: prefix_def)
    ultimately show False
      using hd_render [OF T ne] by simp
  qed
qed

lemma scan_for_render:
  "separated T \<Longrightarrow>
     scan_for T (pre @ render T ks) (length pre, acc)
       = (length pre + length (render T ks), acc + of_int (total T ks))"
proof (induction T arbitrary: ks pre acc)
  case Nil
  then show ?case
    by simp
next
  case (Cons sv T)
  obtain s v where sv: "sv = (s, v)"
    by (cases sv)
  show ?case
  proof (cases ks)
    case Nil
    then show ?thesis
      by (simp add: sv scan_for_at_end scan_while_stop)
  next
    case (Cons k ks')
    have sep: "separated T" and s: "s \<noteq> []"
      using Cons.prems sv by simp_all
    have np: "\<not> prefix s (render T ks')"
      using Cons.prems sv by (intro separated_not_prefix) simp
    have "scan_while s v (pre @ concat (replicate k s) @ render T ks') (length pre, acc)
        = (length pre + k * length s, acc + of_int (int k * v))"
      using s np by (rule scan_while_blocks)
    moreover have "scan_for T ((pre @ concat (replicate k s)) @ render T ks')
          (length (pre @ concat (replicate k s)), acc + of_int (int k * v))
        = (length (pre @ concat (replicate k s)) + length (render T ks'),
           acc + of_int (int k * v) + of_int (total T ks'))"
      using Cons.IH [OF sep] .
    moreover have "length (concat (replicate k s)) = k * length s"
      by (induction k) simp_all
    ultimately show ?thesis
      using sv Cons by (simp add: algebra_simps)
  qed
qed

subsection \<open>No forbidden sequence across blocks\<close>

lemma find_invalid_None_iff:
  "find_invalid seqs roman = None \<longleftrightarrow> (\<forall>seq \<in> set seqs. \<not> str_in seq roman)"
  by (induction seqs) auto

lemma str_in_replicate_append:
  assumes "u = [] \<or> v = [] \<or> last u \<noteq> hd v"
  shows "str_in (replicate m c) (u @ v) \<longleftrightarrow> str_in (replicate m c) u \<or> str_in (replicate m c) v"
proof -
  have "\<not> (\<exists>xs1 xs2. replicate m c = xs1 @ xs2 \<and> xs1 \<noteq> [] \<and> xs2 \<noteq> []
            \<and> suffix xs1 u \<and> prefix xs2 v)"
  proof (intro notI, elim exE conjE)
    fix xs1 xs2
    assume eq: "replicate m c = xs1 @ xs2" and ne: "xs1 \<noteq> []" "xs2 \<noteq> []"
      and sp: "suffix xs1 u" "prefix xs2 v"
    have "set (replicate m c) \<subseteq> {c}"
      by auto
    with eq have sub: "set xs1 \<subseteq> {c}" "set xs2 \<subseteq> {c}"
      by auto
    from ne have mem: "last xs1 \<in> set xs1" "hd xs2 \<in> set xs2"
      by simp_all
    have "last xs1 = c"
      using sub(1) mem(1) by auto
    moreover have "hd xs2 = c"
      using sub(2) mem(2) by auto
    moreover from ne sp have "u \<noteq> []" "last u = last xs1" "v \<noteq> []" "hd v = hd xs2"
      by (auto simp: suffix_def prefix_def)
    ultimately show False
      using assms by simp
  qed
  moreover have "sublist xs2 v" if "prefix xs2 v" for xs2
    using that by (rule prefix_imp_sublist)
  moreover have "sublist xs1 u" if "suffix xs1 u" for xs1
    using that by (rule suffix_imp_sublist)
  ultimately have "sublist (replicate m c) u \<or> sublist (replicate m c) v"
    if "replicate m c = xs1 @ xs2" "suffix xs1 u" "prefix xs2 v" for xs1 xs2
    using that by (cases "xs1 = []"; cases "xs2 = []") auto
  then show ?thesis
    unfolding str_in_sublist sublist_append by blast
qed

lemma invalid_sequences_replicate:
  "seq \<in> set invalid_sequences \<Longrightarrow> seq = replicate (length seq) (hd seq)"
  by (auto simp: invalid_sequences_def str_def)

lemma no_invalid_append:
  assumes "u = [] \<or> v = [] \<or> last u \<noteq> hd v"
    and "find_invalid invalid_sequences u = None" "find_invalid invalid_sequences v = None"
  shows "find_invalid invalid_sequences (u @ v) = None"
  unfolding find_invalid_None_iff
proof
  fix seq
  assume seq: "seq \<in> set invalid_sequences"
  then have "\<not> str_in seq u" "\<not> str_in seq v"
    using assms(2,3) by (simp_all add: find_invalid_None_iff)
  then show "\<not> str_in seq (u @ v)"
    using str_in_replicate_append [OF assms(1), of "length seq" "hd seq"]
      invalid_sequences_replicate [OF seq] by simp
qed

lemma last_block: "s \<noteq> [] \<Longrightarrow> 0 < k \<Longrightarrow> last (concat (replicate k s)) = last s"
  by (induction k) (auto simp: last_append)

lemma no_invalid_render:
  "separated T \<Longrightarrow>
   \<forall>((s, v), k) \<in> set (zip T ks). find_invalid invalid_sequences (concat (replicate k s)) = None \<Longrightarrow>
   find_invalid invalid_sequences (render T ks) = None"
proof (induction T ks rule: render.induct)
  case (1 s v T k ks)
  let ?u = "concat (replicate k s)" and ?v = "render T ks"
  have sep: "separated T" and s: "s \<noteq> []" and T: "[] \<notin> set (map fst T)"
    and l: "last s \<notin> set (map (hd \<circ> fst) T)"
    using 1(2) by simp_all
  have v: "find_invalid invalid_sequences ?v = None"
    using 1 sep by simp
  have u: "find_invalid invalid_sequences ?u = None"
    using 1(3) by simp
  have "?u = [] \<or> ?v = [] \<or> last ?u \<noteq> hd ?v"
  proof (cases "?u = [] \<or> ?v = []")
    case False
    then have "0 < k"
      by (cases k) auto
    then have "last ?u = last s"
      using s by (rule last_block [rotated])
    with l have "last ?u \<notin> set (map (hd \<circ> fst) T)"
      by simp
    moreover have "hd ?v \<in> set (map (hd \<circ> fst) T)"
      using False T by (intro hd_render) simp_all
    ultimately show ?thesis
      by metis
  qed blast
  then show ?case
    using u v by (simp add: no_invalid_append)
qed (simp_all add: invalid_sequences_def str_def)

subsection \<open>The digit table\<close>

lemma separated_valores_romanos: "separated valores_romanos"
  by (simp add: valores_romanos_def str_def)

lemma valores_romanos_positive: "\<forall>(s, v) \<in> set valores_romanos. 0 < v"
  by (simp add: valores_romanos_def)

lemma last_valores_romanos: "valores_romanos \<noteq> [] \<and> snd (last valores_romanos) = 1"
  by (simp add: valores_romanos_def)

lemma romano_for_valores_romanos:
  assumes "0 \<le> n" "n < 4000"
  shows "\<exists>ks. romano_for valores_romanos (n, []) = (0, render valores_romanos ks)
            \<and> total valores_romanos ks = n \<and> bounded valores_romanos 4000 ks"
proof -
  obtain ks where ks:
    "romano_for valores_romanos (n, []) = (n - total valores_romanos ks, [] @ render valores_romanos ks)"
    "bounded valores_romanos 4000 ks" "0 \<le> n - total valores_romanos ks"
    "valores_romanos \<noteq> [] \<longrightarrow> n - total valores_romanos ks < snd (last valores_romanos)"
    using romano_for_counts [OF valores_romanos_positive assms, of "[]"] by blast
  then have "n - total valores_romanos ks = 0"
    using last_valores_romanos by simp
  with ks show ?thesis
    by (intro exI [of _ ks]) simp
qed

lemma bounded_Cons:
  "bounded ((s, v) # T) m ks \<longleftrightarrow> (\<exists>k ks'. ks = k # ks' \<and> int k * v < m \<and> bounded T v ks')"
  by (cases ks) simp_all

lemma block_le_1: "k \<le> 1 \<Longrightarrow> P [] \<Longrightarrow> P s \<Longrightarrow> P (concat (replicate k s))"
  by (cases k) simp_all

lemma block_le_3:
  "k \<le> 3 \<Longrightarrow> P [] \<Longrightarrow> P s \<Longrightarrow> P (s @ s) \<Longrightarrow> P (s @ s @ s) \<Longrightarrow> P (concat (replicate k s))"
proof -
  assume "k \<le> 3"
  then consider "k = 0" | "k = 1" | "k = 2" | "k = 3"
    by linarith
  then show "P [] \<Longrightarrow> P s \<Longrightarrow> P (s @ s) \<Longrightarrow> P (s @ s @ s) \<Longrightarrow> P (concat (replicate k s))"
    by cases (simp_all add: numeral_2_eq_2 numeral_3_eq_3)
qed

lemma bounded_valores_romanos:
  assumes "bounded valores_romanos 4000 ks"
  obtains k1 k2 k3 k4 k5 k6 k7 k8 k9 k10 k11 k12 k13 where
    "ks = [k1, k2, k3, k4, k5, k6, k7, k8, k9, k10, k11, k12, k13]"
    "k1 \<le> 3" "k2 \<le> 1" "k3 \<le> 1" "k4 \<le> 1" "k5 \<le> 3" "k6 \<le> 1" "k7 \<le> 1" "k8 \<le> 1"
    "k9 \<le> 3" "k10 \<le> 1" "k11 \<le> 1" "k12 \<le> 1" "k13 \<le> 3"
proof -
  from assms obtain k1 k2 k3 k4 k5 k6 k7 k8 k9 k10 k11 k12 k13 where
    ks: "ks = [k1, k2, k3, k4, k5, k6, k7, k8, k9, k10, k11, k12, k13]"
    and b: "int k1 * 1000 < 4000" "int k2 * 900 < 1000" "int k3 * 500 < 900" "int k4 * 400 < 500"
      "int k5 * 100 < 400" "int k6 * 90 < 100" "int k7 * 50 < 90" "int k8 * 40 < 50"
      "int k9 * 10 < 40" "int k10 * 9 < 10" "int k11 * 5 < 9" "int k12 * 4 < 5" "int k13 * 1 < 4"
    unfolding valores_romanos_def bounded_Cons bounded.simps by blast
  from b have "k1 \<le> 3" "k2 \<le> 1" "k3 \<le> 1" "k4 \<le> 1" "k5 \<le> 3" "k6 \<le> 1" "k7 \<le> 1" "k8 \<le> 1"
    "k9 \<le> 3" "k10 \<le> 1" "k11 \<le> 1" "k12 \<le> 1" "k13 \<le> 3"
    by linarith+
  with ks show thesis
    by (rule that)
qed

lemma no_invalid_Nil: "find_invalid invalid_sequences [] = None"
  by (simp add: invalid_sequences_def str_def)

lemma no_invalid_symbols:
  "find_invalid invalid_sequences (str ''M'') = None"
  "find_invalid invalid_sequences (str ''M'' @ str ''M'') = None"
  "find_invalid invalid_sequences (str ''M'' @ str ''M'' @ str ''M'') = None"
  "find_invalid invalid_sequences (str ''CM'') = None"
  "find_invalid invalid_sequences (str ''D'') = None"
  "find_invalid invalid_sequences (str ''CD'') = None"
  "find_invalid invalid_sequences (str ''C'') = None"
  "find_invalid invalid_sequences (str ''C'' @ str ''C'') = None"
  "find_invalid invalid_sequences (str ''C'' @ str ''C'' @ str ''C'') = None"
  "find_invalid invalid_sequences (str ''XC'') = None"
  "find_invalid invalid_sequences (str ''L'') = None"
  "find_invalid invalid_sequences (str ''XL'') = None"
  "find_invalid invalid_sequences (str ''X'') = None"
  "find_invalid invalid_sequences (str ''X'' @ str ''X'') = None"
  "find_invalid invalid_sequences (str ''X'' @ str ''X'' @ str ''X'') = None"
  "find_invalid invalid_sequences (str ''IX'') = None"
  "find_invalid invalid_sequences (str ''V'') = None"
  "find_invalid invalid_sequences (str ''IV'') = None"
  "find_invalid invalid_sequences (str ''I'') = None"
  "find_invalid invalid_sequences (str ''I'' @ str ''I'') = None"
  "find_invalid invalid_sequences (str ''I'' @ str ''I'' @ str ''I'') = None"
  by (simp_all add: invalid_sequences_def str_def)

lemma no_invalid_block_1:
  "k \<le> 1 \<Longrightarrow> find_invalid invalid_sequences s = None \<Longrightarrow>
     find_invalid invalid_sequences (concat (replicate k s)) = None"
  by (cases k) (simp_all add: no_invalid_Nil)

lemma no_invalid_block_3:
  assumes "k \<le> 3" and "find_invalid invalid_sequences s = None"
    and "find_invalid invalid_sequences (s @ s) = None"
    and "find_invalid invalid_sequences (s @ s @ s) = None"
  shows "find_invalid invalid_sequences (concat (replicate k s)) = None"
proof -
  from assms(1) consider "k = 0" | "k = 1" | "k = 2" | "k = 3"
    by linarith
  then show ?thesis
    using assms(2-4) by cases (simp_all add: no_invalid_Nil numeral_2_eq_2 numeral_3_eq_3)
qed

lemma no_invalid_valores_romanos:
  assumes "bounded valores_romanos 4000 ks"
  shows "find_invalid invalid_sequences (render valores_romanos ks) = None"
proof (rule bounded_valores_romanos [OF assms])
  fix k1 k2 k3 k4 k5 k6 k7 k8 k9 k10 k11 k12 k13
  assume ks: "ks = [k1, k2, k3, k4, k5, k6, k7, k8, k9, k10, k11, k12, k13]"
    and b: "k1 \<le> 3" "k2 \<le> 1" "k3 \<le> 1" "k4 \<le> 1" "k5 \<le> 3" "k6 \<le> 1" "k7 \<le> 1" "k8 \<le> 1"
      "k9 \<le> 3" "k10 \<le> 1" "k11 \<le> 1" "k12 \<le> 1" "k13 \<le> 3"
  have b1: "find_invalid invalid_sequences (concat (replicate k1 (str ''M''))) = None"
    by (rule no_invalid_block_3 [OF b(1)]) (rule no_invalid_symbols)+
  have b2: "find_invalid invalid_sequences (concat (replicate k2 (str ''CM''))) = None"
    by (rule no_invalid_block_1 [OF b(2)]) (rule no_invalid_symbols)+
  have b3: "find_invalid invalid_sequences (concat (replicate k3 (str ''D''))) = None"
    by (rule no_invalid_block_1 [OF b(3)]) (rule no_invalid_symbols)+
  have b4: "find_invalid invalid_sequences (concat (replicate k4 (str ''CD''))) = None"
    by (rule no_invalid_block_1 [OF b(4)]) (rule no_invalid_symbols)+
  have b5: "find_invalid invalid_sequences (concat (replicate k5 (str ''C''))) = None"
    by (rule no_invalid_block_3 [OF b(5)]) (rule no_invalid_symbols)+
  have b6: "find_invalid invalid_sequences (concat (replicate k6 (str ''XC''))) = None"
    by (rule no_invalid_block_1 [OF b(6)]) (rule no_invalid_symbols)+
  have b7: "find_invalid invalid_sequences (concat (replicate k7 (str ''L''))) = None"
    by (rule no_invalid_block_1 [OF b(7)]) (rule no_invalid_symbols)+
  have b8: "find_invalid invalid_sequences (concat (replicate k8 (str ''XL''))) = None"
    by (rule no_invalid_block_1 [OF b(8)]) (rule no_invalid_symbols)+
  have b9: "find_invalid invalid_sequences (concat (replicate k9 (str ''X''))) = None"
    by (rule no_invalid_block_3 [OF b(9)]) (rule no_invalid_symbols)+
  have b10: "find_invalid invalid_sequences (concat (replicate k10 (str ''IX''))) = None"
    by (rule no_invalid_block_1 [OF b(10)]) (rule no_invalid_symbols)+
  have b11: "find_invalid invalid_sequences (concat (replicate k11 (str ''V''))) = None"
    by (rule no_invalid_block_1 [OF b(11)]) (rule no_invalid_symbols)+
  have b12: "find_invalid invalid_sequences (concat (replicate k12 (str ''IV''))) = None"
    by (rule no_invalid_block_1 [OF b(12)]) (rule no_invalid_symbols)+
  have b13: "find_invalid invalid_sequences (concat (replicate k13 (str ''I''))) = None"
    by (rule no_invalid_block_3 [OF b(13)]) (rule no_invalid_symbols)+
  note blocks = b1 b2 b3 b4 b5 b6 b7 b8 b9 b10 b11 b12 b13
  have "\<forall>((s, v), k) \<in> set (zip valores_romanos ks).
          find_invalid invalid_sequences (concat (replicate k s)) = None"
    unfolding ks valores_romanos_def using blocks by simp
  then show "find_invalid invalid_sequences (render valores_romanos ks) = None"
    by (rule no_invalid_render [OF separated_valores_romanos])
qed

lemma set_render_valores_romanos: "set (render valores_romanos ks) \<subseteq> {73, 86, 88, 76, 67, 68, 77}"
  using set_render [of valores_romanos ks] by (auto simp: valores_romanos_def str_def)

lemma upper_unchanged: "\<forall>c \<in> set w. c < 97 \<Longrightarrow> upper w = w"
  by (induction w) (simp_all add: upper_def upper_cp_low)

lemma str_in_subset: "str_in sub w \<Longrightarrow> set sub \<subseteq> set w"
  by (simp add: str_in_sublist set_mono_sublist)

lemma no_fraction_glyph:
  assumes "83 \<notin> set w" "183 \<notin> set w"
  shows "\<not> list_ex (\<lambda>f. str_in (fst f) w) valores_fracciones"
    and "fraction_for valores_fracciones w st = st"
proof -
  have "\<not> str_in g w" if "83 \<in> set g \<or> 183 \<in> set g" for g
    using that assms str_in_subset [of g w] by blast
  then show "\<not> list_ex (\<lambda>f. str_in (fst f) w) valores_fracciones"
    by (simp add: valores_fracciones_def str_def dot_def)
  have "\<not> endswith w g" if "83 \<in> set g \<or> 183 \<in> set g" for g
    using that assms set_mono_suffix [of g w] by (auto simp: endswith_def)
  then show "fraction_for valores_fracciones w st = st"
    by (simp add: valores_fracciones_def str_def dot_def)
qed

lemma render_Nil_total:
  "[] \<notin> set (map fst T) \<Longrightarrow> render T ks = [] \<Longrightarrow> total T ks = 0"
  by (induction T ks rule: render.induct) auto

lemma a_decimal_render:
  assumes "bounded valores_romanos 4000 ks" and "render valores_romanos ks \<noteq> []"
  shows "a_decimal (render valores_romanos ks) = Inr (of_int (total valores_romanos ks))"
proof -
  let ?w = "render valores_romanos ks"
  have chars: "set ?w \<subseteq> {73, 86, 88, 76, 67, 68, 77}"
    by (rule set_render_valores_romanos)
  then have up: "upper ?w = ?w"
    by (intro upper_unchanged) auto
  have nf: "83 \<notin> set ?w" "183 \<notin> set ?w"
    using chars by auto
  have "valida_romano ?w = None"
    using no_invalid_valores_romanos [OF assms(1)] no_fraction_glyph(1) [OF nf]
    by (simp add: valida_romano_def up)
  moreover have "scan_for valores_romanos ?w (0, 0) = (length ?w, of_int (total valores_romanos ks))"
    using scan_for_render [OF separated_valores_romanos, of "[]" ks 0] by simp
  ultimately show ?thesis
    using assms(2) by (simp add: a_decimal_def up no_fraction_glyph(2) [OF nf])
qed

text \<open>
  Claim C1: for every integer \<open>n\<close> from 1 to 3999, \<open>a_romano n\<close> returns a numeral and
  \<open>a_decimal\<close> of that numeral returns exactly \<open>n\<close>; neither call raises.
\<close>

theorem a_romano_a_decimal_round_trip:
  assumes "1 \<le> n" and "n \<le> 3999"
  shows "\<exists>w. a_romano (of_int n) = Inr w \<and> a_decimal w = Inr (of_int n)"
proof -
  obtain ks where ks: "romano_for valores_romanos (n, []) = (0, render valores_romanos ks)"
    "total valores_romanos ks = n" "bounded valores_romanos 4000 ks"
    using romano_for_valores_romanos [of n] assms by auto
  let ?w = "render valores_romanos ks"
  have ne: "?w \<noteq> []"
    using render_Nil_total [of valores_romanos ks] ks(2) assms(1)
    by (auto simp: valores_romanos_def str_def)
  have "\<not> (of_int n :: rat) < 0" "\<not> (of_int n :: rat) > 3999.5"
    using assms by simp_all
  then have "a_romano (of_int n) = Inr ?w"
    using ks(1) ne assms(1) by (simp add: a_romano_def py_int_def)
  moreover have "a_decimal ?w = Inr (of_int n)"
    using a_decimal_render [OF ks(3) ne] ks(2) by simp
  ultimately show ?thesis
    by blast
qed

theorem a_romano_a_decimal_round_trip_witness:
  "(1::int) \<le> 1994 \<and> (1994::int) \<le> 3999
   \<and> a_romano (of_int 1994) = Inr (str ''MCMXCIV'')
   \<and> a_decimal (str ''MCMXCIV'') = Inr (of_int 1994)"
proof -
  have r: "a_romano (of_int 1994) = Inr (str ''MCMXCIV'')"
    by (simp add: numrom_eval)
  obtain w where w: "a_romano (of_int 1994) = Inr w" "a_decimal w = Inr (of_int 1994)"
    using a_romano_a_decimal_round_trip [of 1994] by auto
  from w(1) r have "w = str ''MCMXCIV''"
    by simp
  with w(2) r show ?thesis
    by simp
qed


subsection \<open>A string that is accepted and never written\<close>











end
